theory Spec2Isabelle
  imports Complex_Main "HOL-Library.Sublist"
begin

section \<open>Python values used by the recursive chunker\<close>

text \<open>
  Exceptions of the source are values: a function that may raise returns
  \<open>py_error + 'a\<close>, with \<open>Inl\<close> the exception.
\<close>

datatype py_error = ValueError | IndexError | TypeError

text \<open>
  Token counts are Python ints, or the float \<open>inf\<close> that
  \<open>_estimate_token_count\<close> returns as its sentinel. Arithmetic on the two
  leaves the integers only through \<open>inf\<close>, so the values that can appear are an
  unbounded integer, \<open>inf\<close>, \<open>-inf\<close> and \<open>nan\<close>; \<open>padd\<close>,
  \<open>psub\<close> and \<open>plt\<close> are Python's \<open>+\<close>, \<open>-\<close> and \<open><\<close> on them
  (\<open>pgt\<close> and \<open>ple\<close> are \<open>>\<close> and \<open><=\<close>). Every comparison with \<open>nan\<close> is
  false. Integers are taken to be within the range of a float where they meet
  \<open>inf\<close>, as token counts are.
\<close>

datatype pynum = Fin int | PInf | NInf | NaN

fun padd :: "pynum \<Rightarrow> pynum \<Rightarrow> pynum" where
  "padd (Fin a) (Fin b) = Fin (a + b)"
| "padd NaN _ = NaN"
| "padd _ NaN = NaN"
| "padd PInf NInf = NaN"
| "padd NInf PInf = NaN"
| "padd PInf _ = PInf"
| "padd _ PInf = PInf"
| "padd NInf _ = NInf"
| "padd _ NInf = NInf"

fun pneg :: "pynum \<Rightarrow> pynum" where
  "pneg (Fin a) = Fin (- a)"
| "pneg PInf = NInf"
| "pneg NInf = PInf"
| "pneg NaN = NaN"

definition psub :: "pynum \<Rightarrow> pynum \<Rightarrow> pynum" where
  "psub a b = padd a (pneg b)"

fun plt :: "pynum \<Rightarrow> pynum \<Rightarrow> bool" where
  "plt (Fin a) (Fin b) = (a < b)"
| "plt NaN _ = False"
| "plt _ NaN = False"
| "plt PInf _ = False"
| "plt _ NInf = False"
| "plt _ PInf = True"
| "plt NInf _ = True"

definition pgt :: "pynum \<Rightarrow> pynum \<Rightarrow> bool" where
  "pgt a b = plt b a"

fun ple :: "pynum \<Rightarrow> pynum \<Rightarrow> bool" where
  "ple (Fin a) (Fin b) = (a \<le> b)"
| "ple NaN _ = False"
| "ple _ NaN = False"
| "ple NInf _ = True"
| "ple _ PInf = True"
| "ple PInf _ = False"
| "ple _ NInf = False"

fun is_fin :: "pynum \<Rightarrow> bool" where
  "is_fin (Fin _) = True"
| "is_fin _ = False"

text \<open>The values from which no sum comes back below: \<open>inf\<close> and \<open>nan\<close>.\<close>

definition high :: "pynum \<Rightarrow> bool" where
  "high x = (x = PInf \<or> x = NaN)"

subsection \<open>Sequences: slices, indexing, joining\<close>

text \<open>\<open>xs[i:j]\<close> and \<open>xs[i:]\<close> with Python's negative and out-of-range bounds.\<close>

definition py_bound :: "nat \<Rightarrow> int \<Rightarrow> nat" where
  "py_bound n i = (if i < 0 then nat (int n + i) else min n (nat i))"

definition py_slice :: "'a list \<Rightarrow> int \<Rightarrow> int \<Rightarrow> 'a list" where
  "py_slice xs i j =
     (let lo = py_bound (length xs) i; hi = py_bound (length xs) j
      in take (hi - lo) (drop lo xs))"

definition py_slice_from :: "'a list \<Rightarrow> int \<Rightarrow> 'a list" where
  "py_slice_from xs i = drop (py_bound (length xs) i) xs"

text \<open>\<open>xs[i]\<close> with an int index: from the end when negative, IndexError outside.\<close>

definition py_get :: "'a list \<Rightarrow> int \<Rightarrow> py_error + 'a" where
  "py_get xs i =
     (if 0 \<le> i \<and> i < int (length xs) then Inr (xs ! nat i)
      else if i < 0 \<and> - int (length xs) \<le> i then Inr (xs ! nat (int (length xs) + i))
      else Inl IndexError)"

fun py_join :: "string \<Rightarrow> string list \<Rightarrow> string" where
  "py_join sep [] = []"
| "py_join sep [x] = x"
| "py_join sep (x # y # ys) = x @ sep @ py_join sep (y # ys)"

text \<open>\<open>s.index(t)\<close>: the first position where \<open>t\<close> starts, or ValueError.\<close>

fun py_index :: "string \<Rightarrow> string \<Rightarrow> py_error + nat" where
  "py_index [] t = (if t = [] then Inr 0 else Inl ValueError)"
| "py_index (c # cs) t =
     (if prefix t (c # cs) then Inr 0
      else (case py_index cs t of Inl e \<Rightarrow> Inl e | Inr i \<Rightarrow> Inr (Suc i)))"

text \<open>
  \<open>s.replace(old, new)\<close>: occurrences are replaced left to right without
  overlap; an empty \<open>old\<close> matches before every character and at the end.
\<close>

function py_replace :: "string \<Rightarrow> string \<Rightarrow> string \<Rightarrow> string" where
  "py_replace s old new =
     (if old = [] then new @ concat (map (\<lambda>c. c # new) s)
      else if s = [] then []
      else if prefix old s then new @ py_replace (drop (length old) s) old new
      else hd s # py_replace (tl s) old new)"
  by pat_completeness auto
termination
  by (relation "measure (\<lambda>(s, old, new). length s)") (auto simp: neq_Nil_conv)

declare py_replace.simps [simp del]

text \<open>
  \<open>s.split(sep)\<close>: cuts at the occurrences of \<open>sep\<close>, left to right without
  overlap, keeping empty pieces; an empty separator raises ValueError.
\<close>

function split_acc :: "string \<Rightarrow> string \<Rightarrow> string \<Rightarrow> string list" where
  "split_acc sep acc s =
     (if s = [] \<or> sep = [] then [acc]
      else if prefix sep s then acc # split_acc sep [] (drop (length sep) s)
      else split_acc sep (acc @ [hd s]) (tl s))"
  by pat_completeness auto
termination
  by (relation "measure (\<lambda>(sep, acc, s). length s)") (auto simp: neq_Nil_conv)

declare split_acc.simps [simp del]

definition py_split :: "string \<Rightarrow> string \<Rightarrow> py_error + string list" where
  "py_split s sep = (if sep = [] then Inl ValueError else Inr (split_acc sep [] s))"

text \<open>
  \<open>bisect_left(a, x, lo)\<close> of the standard library: a binary search between
  \<open>lo\<close> and \<open>len(a)\<close> that compares with \<open><\<close>; a negative \<open>lo\<close> raises
  ValueError.
\<close>

function bisect_loop :: "pynum list \<Rightarrow> pynum \<Rightarrow> nat \<Rightarrow> nat \<Rightarrow> nat" where
  "bisect_loop a x lo hi =
     (if lo < hi then
        (let mid = (lo + hi) div 2
         in if plt (a ! mid) x then bisect_loop a x (mid + 1) hi
            else bisect_loop a x lo mid)
      else lo)"
  by pat_completeness auto
termination
  by (relation "measure (\<lambda>(a, x, lo, hi). hi - lo)") auto

declare bisect_loop.simps [simp del]

definition bisect_left :: "pynum list \<Rightarrow> pynum \<Rightarrow> int \<Rightarrow> py_error + nat" where
  "bisect_left a x lo =
     (if lo < 0 then Inl ValueError else Inr (bisect_loop a x (nat lo) (length a)))"

text \<open>\<open>list(accumulate([first] + xs, f))\<close>.\<close>

fun accumulate :: "(pynum \<Rightarrow> pynum \<Rightarrow> pynum) \<Rightarrow> pynum \<Rightarrow> pynum list \<Rightarrow> pynum list" where
  "accumulate f acc [] = [acc]"
| "accumulate f acc (x # xs) = acc # accumulate f (f acc x) xs"

section \<open>The chunker's data\<close>

text \<open>
  The tokenizer is an external collaborator; the chunker uses
  \<open>count_tokens\<close>, \<open>encode\<close> and \<open>decode_batch\<close> of it.
\<close>

record tokenizer =
  count_tokens :: "string \<Rightarrow> int"
  encode :: "string \<Rightarrow> nat list"
  decode_batch :: "nat list list \<Rightarrow> string list"

text \<open>
  Modelled from the spec: the declaration of RecursiveLevel (module
  chonkie.types) is not among the sources. A level is whitespace mode,
  delimiter mode with a placement policy, or token-window mode, the mode being
  determined by which fields are populated; the record has the five
  attributes that the chunker reads from a level.
\<close>

record recursive_level =
  delimiters :: "string list option"
  whitespace :: bool
  include_delim :: "string option"
  whitespace_delimiter :: bool
  custom_delimiters :: bool

record chunker =
  tokenizer :: tokenizer
  rules :: "recursive_level list"
  chunk_size :: int
  min_characters_per_chunk :: int
  return_type :: string

record recursive_chunk =
  chunk_text :: string
  start_index :: int
  end_index :: int
  token_count :: pynum
  level :: nat

datatype out = OChunk recursive_chunk | OText string

definition CHARS_PER_TOKEN :: int where
  "CHARS_PER_TOKEN = 6"

definition INTERNAL_SEP :: string where
  "INTERNAL_SEP = ''<=CHONKIE_INTERNAL_SEP=>''"

text \<open>The checks of \<open>__init__\<close>, in the source's order.\<close>

definition init :: "tokenizer \<Rightarrow> recursive_level list \<Rightarrow> int \<Rightarrow> int \<Rightarrow> string
    \<Rightarrow> py_error + chunker" where
  "init tk rs cs mc rt =
     (if cs \<le> 0 then Inl ValueError
      else if mc \<le> 0 then Inl ValueError
      else if rt \<notin> set [''chunks'', ''texts''] then Inl ValueError
      else Inr \<lparr>tokenizer = tk, rules = rs, chunk_size = cs,
                min_characters_per_chunk = mc, return_type = rt\<rparr>)"

section \<open>Token estimator\<close>

text \<open>
  \<open>_estimate_token_count\<close> is a method under \<open>@lru_cache(maxsize=2048)\<close>.
  \<open>estimate_uncached\<close> is the body of the method, which runs when the text is
  not in the cache; the second component of its result lists the texts handed
  to the tokenizer's \<open>count_tokens\<close>.
\<close>

definition estimate_uncached :: "chunker \<Rightarrow> string \<Rightarrow> pynum \<times> string list" where
  "estimate_uncached c t =
     (let estimate = max 1 (int (length t) div CHARS_PER_TOKEN)
      in if estimate > chunk_size c then (PInf, [])
         else (Fin (count_tokens (tokenizer c) t), [t]))"

text \<open>
  The cache of one chunker is the list of its entries, text and value, the most
  recently used first. \<open>estimate_token_count\<close> is the memoised method: a text
  in the cache gets its stored value, without running the body, and moves to
  the front; another text runs the body, and its value is stored at the front,
  the least recently used entry being dropped from a full cache. The result is
  the value, the texts handed to the tokenizer, and the new cache.
\<close>

type_synonym cache = "(string \<times> pynum) list"



text \<open>
  The caches that calls of the chunker build, from the empty one: every entry
  holds what the body computes for its text.
\<close>

definition cache_ok :: "chunker \<Rightarrow> cache \<Rightarrow> bool" where
  "cache_ok c cache = (\<forall>e\<in>set cache. snd e = fst (estimate_uncached c (fst e)))"

section \<open>Chunk materializer\<close>

text \<open>
  \<open>_convert_to_chunk\<close>. The body of the \<open>try\<close> is \<open>locate\<close>; the handler
  prints one line and uses offsets 0, 0. The second component of the result is
  the list of printed lines.
\<close>

definition locate :: "string \<Rightarrow> string \<Rightarrow> int \<Rightarrow> py_error + int \<times> int" where
  "locate t full last_chunk_end_index =
     (case py_index (py_slice_from full last_chunk_end_index) t of
        Inl e \<Rightarrow> Inl e
      | Inr i \<Rightarrow>
          (let start = last_chunk_end_index + int i
           in Inr (start, start + int (length t))))"

definition convert_to_chunk ::
    "string \<Rightarrow> pynum \<Rightarrow> nat \<Rightarrow> string option \<Rightarrow> int \<Rightarrow> recursive_chunk \<times> string list" where
  "convert_to_chunk t tc lvl full_text last_chunk_end_index =
     (let full = (case full_text of None \<Rightarrow> t | Some f \<Rightarrow> f)
      in case locate t full last_chunk_end_index of
           Inr (s, e) \<Rightarrow>
             (\<lparr>chunk_text = t, start_index = s, end_index = e, token_count = tc, level = lvl\<rparr>, [])
         | Inl err \<Rightarrow>
             (\<lparr>chunk_text = t, start_index = 0, end_index = 0, token_count = tc, level = lvl\<rparr>,
              [''Error finding start and end index for text'']))"

text \<open>
  The text occurs in \<open>full_text\<close> at or after the offset: it is a substring of
  \<open>full_text[offset:]\<close>.
\<close>

definition occurs_from :: "string \<Rightarrow> string \<Rightarrow> int \<Rightarrow> bool" where
  "occurs_from full t k = sublist t (py_slice_from full k)"

section \<open>Split merger\<close>

text \<open>
  \<open>_merge_splits\<close>. \<open>merge_step\<close> is the body of the \<open>while\<close> loop: from
  the current index it gives the next index, the merged piece and its token
  count. The indices are Python ints, as in the source. The loop is a partial
  function: the value None stands for a loop that does not return.
\<close>

definition merge_step ::
    "int \<Rightarrow> string list \<Rightarrow> pynum list \<Rightarrow> bool \<Rightarrow> int \<Rightarrow> py_error + int \<times> string \<times> pynum" where
  "merge_step cs splits cum combine_whitespace current_index =
     (case py_get cum current_index of
        Inl e \<Rightarrow> Inl e
      | Inr current_token_count \<Rightarrow>
          (let required_token_count = padd current_token_count (Fin cs)
           in case bisect_left cum required_token_count current_index of
                Inl e \<Rightarrow> Inl e
              | Inr r \<Rightarrow>
                  (let index0 = min (int r - 1) (int (length splits));
                       index = (if index0 = current_index then index0 + 1 else index0);
                       piece = py_join (if combine_whitespace then '' '' else '''')
                                 (py_slice splits current_index index)
                   in case py_get cum (min index (int (length splits))) of
                        Inl e \<Rightarrow> Inl e
                      | Inr end_count \<Rightarrow> Inr (index, piece, psub end_count current_token_count))))"

partial_function (option) merge_loop ::
    "int \<Rightarrow> string list \<Rightarrow> pynum list \<Rightarrow> bool \<Rightarrow> int \<Rightarrow> string list \<Rightarrow> pynum list
      \<Rightarrow> (py_error + string list \<times> pynum list) option" where
  "merge_loop cs splits cum cw current_index merged combined =
     (if current_index < int (length splits) then
        (case merge_step cs splits cum cw current_index of
           Inl e \<Rightarrow> Some (Inl e)
         | Inr (index, piece, cnt) \<Rightarrow>
             merge_loop cs splits cum cw index (merged @ [piece]) (combined @ [cnt]))
      else Some (Inr (merged, combined)))"

declare merge_loop.simps [code]

definition cumulative :: "bool \<Rightarrow> pynum list \<Rightarrow> pynum list" where
  "cumulative combine_whitespace token_counts =
     (if combine_whitespace
      then accumulate (\<lambda>x y. padd (padd x y) (Fin 1)) (Fin 0) token_counts
      else accumulate padd (Fin 0) token_counts)"

definition merge_splits ::
    "chunker \<Rightarrow> string list \<Rightarrow> pynum list \<Rightarrow> bool
      \<Rightarrow> (py_error + string list \<times> pynum list) option" where
  "merge_splits c splits token_counts combine_whitespace =
     (if splits = [] \<or> token_counts = [] then Some (Inr ([], []))
      else if length splits \<noteq> length token_counts then Some (Inl ValueError)
      else if list_all (\<lambda>counts. pgt counts (Fin (chunk_size c))) token_counts
        then Some (Inr (splits, token_counts))
      else merge_loop (chunk_size c) splits (cumulative combine_whitespace token_counts)
             combine_whitespace 0 [] [])"




section \<open>Level splitter\<close>

text \<open>
  \<open>_split\<close>. \<open>merge_short\<close> is the loop that merges short splits in
  delimiter mode, with the final flush of \<open>current\<close>; \<open>windows\<close> is the list
  of slices \<open>encoded[i : i + chunk_size]\<close> for \<open>i\<close> in
  \<open>range(0, len(encoded), chunk_size)\<close>, and a zero step makes \<open>range\<close> raise.
\<close>

fun merge_short :: "int \<Rightarrow> string list \<Rightarrow> string \<Rightarrow> string list \<Rightarrow> string list" where
  "merge_short mc [] current merged = (if current \<noteq> [] then merged @ [current] else merged)"
| "merge_short mc (split # splits) current merged =
     (let (current1, merged1) =
            (if int (length split) < mc then (current @ split, merged)
             else if current \<noteq> [] then ([], merged @ [current @ split])
             else (current, merged @ [split]))
      in if int (length current1) \<ge> mc then merge_short mc splits [] (merged1 @ [current1])
         else merge_short mc splits current1 merged1)"

function windows :: "int \<Rightarrow> 'a list \<Rightarrow> 'a list list" where
  "windows k xs =
     (if k \<le> 0 \<or> xs = [] then [] else take (nat k) xs # windows k (drop (nat k) xs))"
  by pat_completeness auto
termination
  by (relation "measure (\<lambda>(k, xs). length xs)") auto

declare windows.simps [simp del]

definition split_level :: "chunker \<Rightarrow> string \<Rightarrow> recursive_level \<Rightarrow> string
    \<Rightarrow> py_error + string list" where
  "split_level c t lv sep =
     (if whitespace_delimiter lv then py_split t '' ''
      else if custom_delimiters lv then
        (case delimiters lv of
           None \<Rightarrow> Inl TypeError
         | Some ds \<Rightarrow>
             (let t1 = (if include_delim lv = Some ''prev''
                          then foldl (\<lambda>s d. py_replace s d (d @ sep)) t ds
                        else if include_delim lv = Some ''next''
                          then foldl (\<lambda>s d. py_replace s d (sep @ d)) t ds
                        else foldl (\<lambda>s d. py_replace s d sep) t ds)
              in case py_split t1 sep of
                   Inl e \<Rightarrow> Inl e
                 | Inr pieces \<Rightarrow>
                     Inr (merge_short (min_characters_per_chunk c)
                            (filter (\<lambda>s. s \<noteq> []) pieces) [] [])))
      else
        (let encoded = encode (tokenizer c) t
         in if chunk_size c = 0 then Inl ValueError
            else Inr (decode_batch (tokenizer c) (windows (chunk_size c) encoded))))"

section \<open>Recursive driver\<close>

text \<open>
  \<open>collect\<close> is the loop over the merged spans, given what each span
  produces: the results are appended in order, and the first span whose
  processing raises or does not return decides the outcome.
\<close>

fun collect :: "(py_error + 'b list) option list \<Rightarrow> (py_error + 'b list) option" where
  "collect [] = Some (Inr [])"
| "collect (r # rs) =
     (case r of
        None \<Rightarrow> None
      | Some (Inl e) \<Rightarrow> Some (Inl e)
      | Some (Inr ys) \<Rightarrow>
          (case collect rs of
             None \<Rightarrow> None
           | Some (Inl e) \<Rightarrow> Some (Inl e)
           | Some (Inr zs) \<Rightarrow> Some (Inr (ys @ zs))))"

text \<open>
  Modelled from the spec: \<open>_get_token_count\<close> belongs to the base class, which is
  not among the sources; it is the exact token count of the tokenizer. The
  source reads the rule list as \<open>self.rules\<close> and \<open>self.recursive_rules\<close>; both are
  the one list \<open>rules\<close> here.

  The driver uses the values of \<open>_estimate_token_count\<close> only. On every cache
  that the chunker's calls have built the memoised method returns the value of
  its body (\<open>estimate_token_count_value\<close> below), so the driver takes
  \<open>fst (estimate_uncached c s)\<close> for the estimate of a piece \<open>s\<close>, and its results
  do not depend on the state of the cache.
\<close>

definition get_token_count :: "chunker \<Rightarrow> string \<Rightarrow> pynum" where
  "get_token_count c t = Fin (count_tokens (tokenizer c) t)"

function chunk_helper :: "chunker \<Rightarrow> string \<Rightarrow> nat \<Rightarrow> string option \<Rightarrow> (py_error + out list) option" where
  "chunk_helper c t lvl full_text =
     (if t = [] then Some (Inr [])
      else if lvl \<ge> length (rules c) then
        (if return_type c = ''texts'' then Some (Inr [OText t])
         else if return_type c = ''chunks''
           then Some (Inr [OChunk (fst (convert_to_chunk t (get_token_count c t) lvl full_text 0))])
         else Some (Inl ValueError))
      else
        (let full = (case full_text of None \<Rightarrow> t | Some f \<Rightarrow> f);
             curr_rule = rules c ! lvl
         in case split_level c t curr_rule INTERNAL_SEP of
              Inl e \<Rightarrow> Some (Inl e)
            | Inr splits \<Rightarrow>
                (let token_counts = map (\<lambda>s. fst (estimate_uncached c s)) splits;
                     no_delim = (delimiters curr_rule = None \<and> \<not> whitespace curr_rule)
                 in case (if no_delim then Some (Inr (splits, token_counts))
                          else if delimiters curr_rule = None \<and> whitespace curr_rule
                            then merge_splits c splits token_counts True
                          else merge_splits c splits token_counts False) of
                      None \<Rightarrow> None
                    | Some (Inl e) \<Rightarrow> Some (Inl e)
                    | Some (Inr (merged, combined_token_counts)) \<Rightarrow>
                        collect (map
                          (\<lambda>(split, tc).
                             if pgt tc (Fin (chunk_size c))
                               then chunk_helper c split (lvl + 1) (Some full)
                             else if return_type c = ''chunks''
                               then Some (Inr [OChunk (fst (convert_to_chunk split tc lvl
                                      (if no_delim then Some (concat merged) else Some full) 0))])
                             else if return_type c = ''texts'' then Some (Inr [OText split])
                             else Some (Inr []))
                          (zip merged combined_token_counts)))))"
  by pat_completeness auto
termination
  by (relation "measure (\<lambda>(c, t, lvl, f). length (rules c) - lvl)") auto

declare chunk_helper.simps [simp del]

definition chunk :: "chunker \<Rightarrow> string \<Rightarrow> (py_error + out list) option" where
  "chunk c t = chunk_helper c t 0 (Some t)"

section \<open>Concrete chunkers for the examples\<close>

text \<open>
  A tokenizer with one token per character, a level that splits after every
  full stop, a whitespace level and a token-window level.
\<close>

definition char_tokenizer :: tokenizer where
  "char_tokenizer = \<lparr>count_tokens = (\<lambda>s. int (length s)),
      encode = map of_char, decode_batch = map (map char_of)\<rparr>"

definition lv_dot :: recursive_level where
  "lv_dot = \<lparr>delimiters = Some [''.''], whitespace = False, include_delim = Some ''prev'',
      whitespace_delimiter = False, custom_delimiters = True\<rparr>"

definition lv_tok :: recursive_level where
  "lv_tok = \<lparr>delimiters = None, whitespace = False, include_delim = None,
      whitespace_delimiter = False, custom_delimiters = False\<rparr>"

definition lv_ws :: recursive_level where
  "lv_ws = \<lparr>delimiters = None, whitespace = True, include_delim = None,
      whitespace_delimiter = True, custom_delimiters = False\<rparr>"

definition ck :: "int \<Rightarrow> recursive_level list \<Rightarrow> chunker" where
  "ck cs rs = \<lparr>tokenizer = char_tokenizer, rules = rs, chunk_size = cs,
      min_characters_per_chunk = 1, return_type = ''chunks''\<rparr>"

section \<open>Results about construction\<close>

text \<open>
  A chunker that the constructor accepts has a positive \<open>chunk_size\<close>, a
  positive \<open>min_characters_per_chunk\<close> and one of the two return types. The
  results below assume of a chunker what they need of these.
\<close>

lemma init_valid:
  assumes "init tk rs cs mc rt = Inr c"
  shows "0 < chunk_size c" and "0 < min_characters_per_chunk c"
    and "return_type c = ''chunks'' \<or> return_type c = ''texts''"
    and "rules c = rs" and "tokenizer c = tk"
  using assms by (auto simp: init_def split: if_splits)

section \<open>Results about the estimator\<close>

lemma cache_ok_Nil [simp]: "cache_ok c []"
  by (simp add: cache_ok_def)








section \<open>Results about the splitter\<close>

lemma merge_short_inv:
  assumes "0 < mc"
    and "int (length current) < mc"
    and "\<forall>p\<in>set merged. mc \<le> int (length p)"
  shows "(\<forall>p\<in>set (merge_short mc splits current merged). p \<noteq> [])
         \<and> (\<forall>p\<in>set (butlast (merge_short mc splits current merged)). mc \<le> int (length p))"
  using assms
proof (induction splits arbitrary: current merged)
  case Nil
  then show ?case by (auto simp: butlast_append dest: in_set_butlastD)
next
  case (Cons split splits)
  have empty: "int (length ([] :: string)) < mc" using Cons.prems(1) by simp
  show ?case
  proof (cases "int (length split) < mc")
    case short: True
    show ?thesis
    proof (cases "mc \<le> int (length (current @ split))")
      case True
      have "\<forall>p\<in>set (merged @ [current @ split]). mc \<le> int (length p)"
        using True Cons.prems(3) by auto
      from Cons.IH [OF Cons.prems(1) empty this] short True show ?thesis by simp
    next
      case False
      then have "int (length (current @ split)) < mc" by simp
      from Cons.IH [OF Cons.prems(1) this Cons.prems(3)] short False show ?thesis by simp
    qed
  next
    case long: False
    show ?thesis
    proof (cases "current = []")
      case True
      have "\<forall>p\<in>set (merged @ [split]). mc \<le> int (length p)"
        using long Cons.prems(3) by auto
      from Cons.IH [OF Cons.prems(1) empty this] long True Cons.prems(1) show ?thesis by simp
    next
      case False
      have "\<forall>p\<in>set (merged @ [current @ split]). mc \<le> int (length p)"
        using long Cons.prems(3) by auto
      from Cons.IH [OF Cons.prems(1) empty this] long False Cons.prems(1) show ?thesis by simp
    qed
  qed
qed

text \<open>
  C9. In delimiter mode (the level has custom delimiters and is not a
  whitespace level) the splitter returns, for a chunker whose
  \<open>min_characters_per_chunk\<close> is positive as the constructor requires, pieces
  that are all non-empty, and every piece but the last has at least
  \<open>min_characters_per_chunk\<close> characters.
\<close>

theorem split_level_delimiter_pieces:
  assumes "0 < min_characters_per_chunk c"
    and "\<not> whitespace_delimiter lv" and "custom_delimiters lv"
    and "delimiters lv = Some ds" and "sep \<noteq> []"
  shows "\<exists>pieces. split_level c t lv sep = Inr pieces
           \<and> (\<forall>p\<in>set pieces. p \<noteq> [])
           \<and> (\<forall>p\<in>set (butlast pieces). min_characters_per_chunk c \<le> int (length p))"
proof -
  obtain t1 where "split_level c t lv sep =
      Inr (merge_short (min_characters_per_chunk c) (filter (\<lambda>s. s \<noteq> []) (split_acc sep [] t1)) [] [])"
    using assms(2-5) by (simp add: split_level_def py_split_def Let_def)
  moreover have "int (length ([] :: string)) < min_characters_per_chunk c"
    using assms(1) by simp
  ultimately show ?thesis
    using merge_short_inv [OF assms(1), of "[]" "[]"] by simp
qed

theorem split_level_delimiter_pieces_witness:
  "0 < min_characters_per_chunk (ck 3 [lv_dot]\<lparr>min_characters_per_chunk := 3\<rparr>)
   \<and> (\<exists>pieces. split_level (ck 3 [lv_dot]\<lparr>min_characters_per_chunk := 3\<rparr>)
                ''abcd.e.fgh'' lv_dot INTERNAL_SEP = Inr pieces
          \<and> (\<forall>p\<in>set pieces. p \<noteq> [])
          \<and> (\<forall>p\<in>set (butlast pieces). 3 \<le> int (length p)))"
  using split_level_delimiter_pieces [of "ck 3 [lv_dot]\<lparr>min_characters_per_chunk := 3\<rparr>"
      lv_dot "[''.'']" INTERNAL_SEP "''abcd.e.fgh''"]
  by (simp add: ck_def lv_dot_def INTERNAL_SEP_def)

section \<open>Results about the materializer\<close>

lemma py_index_Inl: "py_index s t = Inl e \<Longrightarrow> \<not> sublist t s"
  by (induction s) (auto simp: sublist_Cons_right split: if_splits sum.splits)

lemma py_index_Inr:
  "py_index s t = Inr i \<Longrightarrow> i + length t \<le> length s \<and> take (length t) (drop i s) = t"
proof (induction s arbitrary: i)
  case Nil
  then show ?case by (simp split: if_splits)
next
  case (Cons c cs)
  show ?case
  proof (cases "prefix t (c # cs)")
    case True
    with Cons.prems have "i = 0" by simp
    with True prefix_length_le [OF True] show ?thesis
      by (auto simp: prefix_def)
  next
    case False
    with Cons.prems obtain j where j: "py_index cs t = Inr j" "i = Suc j"
      by (auto split: sum.splits)
    with Cons.IH [of j] show ?thesis by simp
  qed
qed

lemma py_index_Inr_sublist:
  assumes "py_index s t = Inr i"
  shows "sublist t s"
proof -
  from py_index_Inr [OF assms] have "t = take (length t) (drop i s)" by simp
  moreover have "sublist (take (length t) (drop i s)) (drop i s)" by simp
  moreover have "sublist (drop i s) s" by simp
  ultimately show ?thesis
    using sublist_order.order_trans by metis
qed

lemma py_slice_found:
  assumes "0 \<le> k" and "py_index (py_slice_from full k) t = Inr i"
  shows "py_slice full (k + int i) (k + int i + int (length t)) = t"
proof -
  let ?s = "py_slice_from full k"
  have s: "?s = drop (min (length full) (nat k)) full"
    using assms(1) by (simp add: py_slice_from_def py_bound_def)
  from py_index_Inr [OF assms(2)]
  have le: "i + length t \<le> length ?s" and tk: "take (length t) (drop i ?s) = t"
    by auto
  show ?thesis
  proof (cases "nat k \<le> length full")
    case True
    with s le have "nat k + i + length t \<le> length full" by simp
    moreover have "nat (k + int i) = nat k + i" "nat (k + int i + int (length t)) = nat k + i + length t"
      using assms(1) by (simp_all add: nat_add_distrib)
    ultimately have "py_slice full (k + int i) (k + int i + int (length t))
        = take (length t) (drop (nat k + i) full)"
      using assms(1) by (simp add: py_slice_def py_bound_def Let_def min_def)
    also have "\<dots> = take (length t) (drop i ?s)"
      using True s by (simp add: min_def add.commute)
    finally show ?thesis using tk by simp
  next
    case False
    with s have "?s = []" by simp
    with le tk have "t = []" by simp
    then show ?thesis by (simp add: py_slice_def)
  qed
qed

text \<open>
  C6. \<open>_convert_to_chunk\<close> always returns a chunk: the exception of the
  search is caught. The search offset is the end index of an earlier chunk, so
  it is not negative. When the text occurs in \<open>full_text\<close> from the offset on,
  the offsets cut exactly the text out of \<open>full_text\<close> and nothing is printed;
  otherwise both offsets are 0 and a line is printed.
\<close>

theorem convert_to_chunk_offsets:
  assumes "0 \<le> k"
  shows "case convert_to_chunk t tc lvl (Some full) k of (ch, printed) \<Rightarrow>
           chunk_text ch = t \<and> token_count ch = tc \<and> level ch = lvl
           \<and> (if occurs_from full t k
                then py_slice full (start_index ch) (end_index ch) = t
                     \<and> end_index ch - start_index ch = int (length t) \<and> printed = []
                else start_index ch = 0 \<and> end_index ch = 0 \<and> printed \<noteq> [])"
proof (cases "py_index (py_slice_from full k) t")
  case (Inl e)
  then have "\<not> occurs_from full t k"
    by (simp add: occurs_from_def py_index_Inl)
  with Inl show ?thesis
    by (simp add: convert_to_chunk_def locate_def)
next
  case (Inr i)
  then have "occurs_from full t k"
    by (simp add: occurs_from_def py_index_Inr_sublist)
  with Inr py_slice_found [OF assms Inr] show ?thesis
    by (simp add: convert_to_chunk_def locate_def Let_def)
qed

theorem convert_to_chunk_offsets_witness:
  "(0 :: int) \<le> 3 \<and> convert_to_chunk ''ab.'' (Fin 3) 0 (Some ''ab.ab.'') 3
     = (\<lparr>chunk_text = ''ab.'', start_index = 3, end_index = 6, token_count = Fin 3, level = 0\<rparr>, [])
   \<and> fst (convert_to_chunk ''xy'' (Fin 2) 0 (Some ''ab.ab.'') 0)
     = \<lparr>chunk_text = ''xy'', start_index = 0, end_index = 0, token_count = Fin 2, level = 0\<rparr>"
  using convert_to_chunk_offsets [of 3 "''ab.''" "Fin 3" 0 "''ab.ab.''"]
    convert_to_chunk_offsets [of 0 "''xy''" "Fin 2" 0 "''ab.ab.''"]
  by (simp add: convert_to_chunk_def locate_def py_slice_from_def py_bound_def)

section \<open>Results about the merger\<close>

subsection \<open>Binary search\<close>

lemma bisect_loop_bounds:
  "lo \<le> hi \<Longrightarrow> lo \<le> bisect_loop a x lo hi \<and> bisect_loop a x lo hi \<le> hi"
proof (induction a x lo hi rule: bisect_loop.induct)
  case (1 a x lo hi)
  show ?case
  proof (cases "lo < hi")
    case True
    define mid where "mid = (lo + hi) div 2"
    have m: "lo \<le> mid" "mid < hi" using True by (simp_all add: mid_def)
    show ?thesis
    proof (cases "plt (a ! mid) x")
      case t: True
      from "1.IH"(1) [OF True mid_def t] m t True show ?thesis
        by (subst (1 2) bisect_loop.simps) (simp add: mid_def [symmetric])
    next
      case f: False
      from "1.IH"(2) [OF True mid_def f] m f True show ?thesis
        by (subst (1 2) bisect_loop.simps) (simp add: mid_def [symmetric])
    qed
  next
    case False
    with "1.prems" show ?thesis by (subst (1 2) bisect_loop.simps) simp
  qed
qed

lemma bisect_loop_left:
  "lo \<le> hi \<Longrightarrow> bisect_loop a x lo hi = lo \<or> plt (a ! (bisect_loop a x lo hi - 1)) x"
proof (induction a x lo hi rule: bisect_loop.induct)
  case (1 a x lo hi)
  show ?case
  proof (cases "lo < hi")
    case True
    define mid where "mid = (lo + hi) div 2"
    have m: "lo \<le> mid" "mid < hi" using True by (simp_all add: mid_def)
    show ?thesis
    proof (cases "plt (a ! mid) x")
      case t: True
      have eq: "bisect_loop a x lo hi = bisect_loop a x (mid + 1) hi"
        using True t by (subst bisect_loop.simps) (simp add: mid_def [symmetric])
      from "1.IH"(1) [OF True mid_def t] m t show ?thesis
        unfolding eq by auto
    next
      case f: False
      have eq: "bisect_loop a x lo hi = bisect_loop a x lo mid"
        using True f by (subst bisect_loop.simps) (simp add: mid_def [symmetric])
      from "1.IH"(2) [OF True mid_def f] m show ?thesis
        unfolding eq by auto
    qed
  next
    case False
    then show ?thesis by (subst bisect_loop.simps) simp
  qed
qed

lemma bisect_loop_right:
  "lo \<le> hi \<Longrightarrow> bisect_loop a x lo hi = hi \<or> \<not> plt (a ! bisect_loop a x lo hi) x"
proof (induction a x lo hi rule: bisect_loop.induct)
  case (1 a x lo hi)
  show ?case
  proof (cases "lo < hi")
    case True
    define mid where "mid = (lo + hi) div 2"
    have m: "lo \<le> mid" "mid < hi" using True by (simp_all add: mid_def)
    show ?thesis
    proof (cases "plt (a ! mid) x")
      case t: True
      have eq: "bisect_loop a x lo hi = bisect_loop a x (mid + 1) hi"
        using True t by (subst bisect_loop.simps) (simp add: mid_def [symmetric])
      from "1.IH"(1) [OF True mid_def t] m show ?thesis
        unfolding eq by auto
    next
      case f: False
      have eq: "bisect_loop a x lo hi = bisect_loop a x lo mid"
        using True f by (subst bisect_loop.simps) (simp add: mid_def [symmetric])
      from "1.IH"(2) [OF True mid_def f] m f show ?thesis
        unfolding eq by auto
    qed
  next
    case False
    with "1.prems" show ?thesis by (subst bisect_loop.simps) simp
  qed
qed

subsection \<open>Prefix sums\<close>

lemma length_accumulate [simp]: "length (accumulate f a xs) = Suc (length xs)"
  by (induction xs arbitrary: a) simp_all

lemma accumulate_0 [simp]: "accumulate f a xs ! 0 = a"
  by (cases xs) simp_all

lemma accumulate_Suc:
  "k < length xs \<Longrightarrow> accumulate f a xs ! Suc k = f (accumulate f a xs ! k) (xs ! k)"
proof (induction xs arbitrary: a k)
  case Nil
  then show ?case by simp
next
  case (Cons x xs)
  show ?case
  proof (cases k)
    case 0
    then show ?thesis by simp
  next
    case (Suc k')
    with Cons.prems have "k' < length xs" by simp
    from Cons.IH [OF this, of "f a x"] Suc show ?thesis by simp
  qed
qed

lemma length_cumulative [simp]: "length (cumulative cw tcs) = Suc (length tcs)"
  by (simp add: cumulative_def)

lemma cumulative_0 [simp]: "cumulative cw tcs ! 0 = Fin 0"
  by (simp add: cumulative_def)

lemma cumulative_Suc:
  "k < length tcs \<Longrightarrow>
   cumulative cw tcs ! Suc k =
     (if cw then padd (padd (cumulative cw tcs ! k) (tcs ! k)) (Fin 1)
      else padd (cumulative cw tcs ! k) (tcs ! k))"
  by (simp add: cumulative_def accumulate_Suc)

lemma padd_not_fin: "\<not> is_fin x \<Longrightarrow> \<not> is_fin (padd x y)"
  by (cases x; cases y) simp_all

lemma padd_high: "high x \<Longrightarrow> high (padd x y)"
  by (cases x; cases y) (simp_all add: high_def)

lemma cumulative_not_fin:
  "k \<le> k' \<Longrightarrow> k' \<le> length tcs \<Longrightarrow> \<not> is_fin (cumulative cw tcs ! k)
   \<Longrightarrow> \<not> is_fin (cumulative cw tcs ! k')"
proof (induction k' rule: nat_induct_at_least)
  case base
  then show ?case by simp
next
  case (Suc m)
  then have "\<not> is_fin (cumulative cw tcs ! m)" "m < length tcs" by simp_all
  then show ?case by (cases cw) (simp_all add: cumulative_Suc padd_not_fin)
qed

lemma cumulative_high:
  "k \<le> k' \<Longrightarrow> k' \<le> length tcs \<Longrightarrow> high (cumulative cw tcs ! k)
   \<Longrightarrow> high (cumulative cw tcs ! k')"
proof (induction k' rule: nat_induct_at_least)
  case base
  then show ?case by simp
next
  case (Suc m)
  then have "high (cumulative cw tcs ! m)" "m < length tcs" by simp_all
  then show ?case by (cases cw) (simp_all add: cumulative_Suc padd_high)
qed

lemma plt_not_fin_self: "\<not> is_fin x \<Longrightarrow> padd x (Fin k) = x"
  by (cases x) simp_all

lemma plt_high: "high y \<Longrightarrow> \<not> plt y x"
  by (cases x) (auto simp: high_def)

lemma plt_low_right: "\<not> is_fin x \<Longrightarrow> \<not> high x \<Longrightarrow> \<not> plt y x"
  by (cases x; cases y) (simp_all add: high_def)

lemma plt_fin_add: "is_fin x \<Longrightarrow> 0 < k \<Longrightarrow> plt x (padd x (Fin k))"
  by (cases x) simp_all

subsection \<open>One step of the merge loop\<close>

lemma py_get_nat: "k < length xs \<Longrightarrow> py_get xs (int k) = Inr (xs ! k)"
  by (simp add: py_get_def)

lemma py_slice_nat:
  "i \<le> j \<Longrightarrow> j \<le> length xs \<Longrightarrow> py_slice xs (int i) (int j) = take (j - i) (drop i xs)"
  by (simp add: py_slice_def py_bound_def)

lemma py_slice_backwards:
  "j \<le> i \<Longrightarrow> py_slice xs (int i) (int j) = []"
  by (simp add: py_slice_def py_bound_def)

lemma merge_step_eval:
  assumes "py_get cum cur = Inr a"
    and "bisect_left cum (padd a (Fin cs)) cur = Inr r"
    and "min (int r - 1) (int (length splits)) = i0"
    and "(if i0 = cur then i0 + 1 else i0) = idx"
    and "py_get cum (min idx (int (length splits))) = Inr b"
  shows "merge_step cs splits cum cw cur =
          Inr (idx, py_join (if cw then '' '' else []) (py_slice splits cur idx), psub b a)"
  using assms by (simp add: merge_step_def Let_def)

lemma merge_step_fin:
  assumes c: "c < length splits" and len: "length cum = Suc (length splits)"
    and fin: "is_fin (cum ! c)" and cs: "0 < cs"
  defines "r \<equiv> bisect_loop cum (padd (cum ! c) (Fin cs)) c (length cum)"
  defines "idx \<equiv> (if r - 1 = c then Suc c else r - 1)"
  shows "c < r" and "r \<le> Suc (length splits)" and "c < idx" and "idx \<le> length splits"
    and "merge_step cs splits cum cw (int c) =
          Inr (int idx, py_join (if cw then '' '' else [])
                 (take (idx - c) (drop c splits)), psub (cum ! idx) (cum ! c))"
proof -
  have le: "c \<le> length cum" using c len by simp
  from bisect_loop_bounds [OF le] have b: "c \<le> r" "r \<le> length cum"
    by (simp_all add: r_def)
  have "r \<noteq> c"
  proof
    assume "r = c"
    with bisect_loop_right [OF le, of cum "padd (cum ! c) (Fin cs)"] c len
    have "\<not> plt (cum ! c) (padd (cum ! c) (Fin cs))"
      by (auto simp: r_def)
    with plt_fin_add [OF fin cs] show False by simp
  qed
  with b show r: "c < r" by simp
  from b len show r': "r \<le> Suc (length splits)" by simp
  from r r' show i: "c < idx" and i': "idx \<le> length splits"
    using c by (auto simp: idx_def)
  have 1: "py_get cum (int c) = Inr (cum ! c)"
    using c len by (simp add: py_get_nat)
  have 2: "bisect_left cum (padd (cum ! c) (Fin cs)) (int c) = Inr r"
    by (simp add: bisect_left_def r_def)
  have 3: "min (int r - 1) (int (length splits)) = int r - 1"
    using r r' by auto
  have 4: "(if int r - 1 = int c then int r - 1 + 1 else int r - 1) = int idx"
    using r by (auto simp: idx_def)
  have 5: "py_get cum (min (int idx) (int (length splits))) = Inr (cum ! idx)"
    using i' len by (simp add: py_get_nat min_def)
  have 6: "py_slice splits (int c) (int idx) = take (idx - c) (drop c splits)"
    using i i' by (simp add: py_slice_nat)
  from merge_step_eval [OF 1 2 3 4 5, of cw]
  show "merge_step cs splits cum cw (int c) =
          Inr (int idx, py_join (if cw then '' '' else [])
                 (take (idx - c) (drop c splits)), psub (cum ! idx) (cum ! c))"
    by (simp only: 6)
qed

lemma merge_step_not_fin:
  assumes c: "c < length tcs" and len: "length splits = length tcs"
    and nf: "\<not> is_fin (cumulative cw tcs ! c)"
  shows "0 < c"
    and "merge_step cs splits (cumulative cw tcs) cw (int c) =
          Inr (int (c - 1), [], psub (cumulative cw tcs ! (c - 1)) (cumulative cw tcs ! c))"
proof -
  let ?cum = "cumulative cw tcs"
  let ?x = "padd (?cum ! c) (Fin cs)"
  let ?r = "bisect_loop ?cum ?x c (length ?cum)"
  show pos: "0 < c" using nf by (cases c) simp_all
  have x: "?x = ?cum ! c" using nf by (rule plt_not_fin_self)
  have le: "c \<le> length ?cum" using c by simp
  from bisect_loop_bounds [OF le] have b: "c \<le> ?r" "?r \<le> length ?cum" by simp_all
  have r: "?r = c"
  proof (rule ccontr)
    assume "?r \<noteq> c"
    with bisect_loop_left [OF le, of ?cum ?x] have p: "plt (?cum ! (?r - 1)) (?cum ! c)"
      by (simp add: x)
    from \<open>?r \<noteq> c\<close> b have k: "c \<le> ?r - 1" "?r - 1 \<le> length tcs" by simp_all
    show False
    proof (cases "high (?cum ! c)")
      case True
      from cumulative_high [OF k True] p show False by (simp add: plt_high)
    next
      case False
      with nf p show False by (simp add: plt_low_right)
    qed
  qed
  have 1: "py_get ?cum (int c) = Inr (?cum ! c)"
    using c by (simp add: py_get_nat)
  have 2: "bisect_left ?cum ?x (int c) = Inr c"
    using r by (simp add: bisect_left_def)
  have 3: "min (int c - 1) (int (length splits)) = int (c - 1)"
    using pos c len by auto
  have 4: "(if int (c - 1) = int c then int (c - 1) + 1 else int (c - 1)) = int (c - 1)"
    using pos by auto
  have "c - 1 < length ?cum" using c by simp
  then have 5: "py_get ?cum (min (int (c - 1)) (int (length splits))) = Inr (?cum ! (c - 1))"
    using c len py_get_nat [of "c - 1" ?cum] by (simp add: min_def del: of_nat_diff)
  have 6: "py_slice splits (int c) (int (c - 1)) = []"
    by (simp add: py_slice_backwards del: of_nat_diff)
  from merge_step_eval [OF 1 2 3 4 5, of cw]
  show "merge_step cs splits ?cum cw (int c) =
          Inr (int (c - 1), [], psub (?cum ! (c - 1)) (?cum ! c))"
    by (simp only: 6 py_join.simps)
qed

subsection \<open>Runs of the merge loop that do not return\<close>

lemma merge_loop_Some_not_inv:
  assumes run: "merge_loop cs1 splits1 cum1 cw1 cur merged combined = Some y"
    and inv: "\<And>k. I k \<Longrightarrow> k < int (length splits) \<and>
            (\<exists>idx p x. merge_step cs splits cum cw k = Inr (idx, p, x) \<and> I idx)"
  shows "cs1 = cs \<and> splits1 = splits \<and> cum1 = cum \<and> cw1 = cw \<longrightarrow> \<not> I cur"
proof (rule merge_loop.raw_induct
    [where P = "\<lambda>cs1 splits1 cum1 cw1 cur merged combined y.
        cs1 = cs \<and> splits1 = splits \<and> cum1 = cum \<and> cw1 = cw \<longrightarrow> \<not> I cur", OF _ run])
  fix loop cs1 splits1 cum1 cw1 cur merged combined y
  assume IH: "\<And>cs1 splits1 cum1 cw1 cur merged combined y.
      loop cs1 splits1 cum1 cw1 cur merged combined = Some y \<Longrightarrow>
      cs1 = cs \<and> splits1 = splits \<and> cum1 = cum \<and> cw1 = cw \<longrightarrow> \<not> I cur"
    and body: "(if cur < int (length splits1) then
        (case merge_step cs1 splits1 cum1 cw1 cur of
           Inl e \<Rightarrow> Some (Inl e)
         | Inr (index, piece, cnt) \<Rightarrow>
             loop cs1 splits1 cum1 cw1 index (merged @ [piece]) (combined @ [cnt]))
      else Some (Inr (merged, combined))) = Some y"
  show "cs1 = cs \<and> splits1 = splits \<and> cum1 = cum \<and> cw1 = cw \<longrightarrow> \<not> I cur"
  proof (intro impI notI)
    assume eq: "cs1 = cs \<and> splits1 = splits \<and> cum1 = cum \<and> cw1 = cw" and I: "I cur"
    from inv [OF I] obtain idx p x where
      lt: "cur < int (length splits)" and st: "merge_step cs splits cum cw cur = Inr (idx, p, x)"
      and I': "I idx" by blast
    from body eq lt st have "loop cs splits cum cw idx (merged @ [p]) (combined @ [x]) = Some y"
      by simp
    from IH [OF this] I' show False by simp
  qed
qed

lemma merge_loop_None:
  assumes "\<And>k. I k \<Longrightarrow> k < int (length splits) \<and>
            (\<exists>idx p x. merge_step cs splits cum cw k = Inr (idx, p, x) \<and> I idx)"
    and "I cur"
  shows "merge_loop cs splits cum cw cur merged combined = None"
proof (cases "merge_loop cs splits cum cw cur merged combined")
  case None
  then show ?thesis .
next
  case (Some y)
  from merge_loop_Some_not_inv [OF Some assms(1)] assms(2) show ?thesis by simp
qed

lemma not_fin_not_high: "\<not> is_fin z \<Longrightarrow> is_fin y \<Longrightarrow> \<not> plt z y \<Longrightarrow> high z"
  by (cases z; cases y) (simp_all add: high_def)

lemma last_fin_index:
  assumes "c \<le> (n :: nat)" and "is_fin (f c)"
  obtains j where "c \<le> j" and "j \<le> n" and "is_fin (f j)"
    and "\<And>k. j < k \<Longrightarrow> k \<le> n \<Longrightarrow> \<not> is_fin (f k)"
proof -
  define j where "j = (GREATEST k. k \<le> n \<and> is_fin (f k))"
  have ex: "c \<le> n \<and> is_fin (f c)" using assms by simp
  have bound: "\<And>k. k \<le> n \<and> is_fin (f k) \<Longrightarrow> k \<le> n" by simp
  have P: "j \<le> n \<and> is_fin (f j)"
    unfolding j_def using ex bound by (rule GreatestI_nat)
  have mx: "k \<le> j" if "k \<le> n \<and> is_fin (f k)" for k
    unfolding j_def
    using Greatest_le_nat [of "\<lambda>k. k \<le> n \<and> is_fin (f k)" k n] that by simp
  show ?thesis
  proof (rule that [of j])
    show "c \<le> j" using mx [OF ex] .
    show "j \<le> n" "is_fin (f j)" using P by simp_all
    fix k assume "j < k" "k \<le> n"
    with mx [of k] show "\<not> is_fin (f k)" by auto
  qed
qed

lemma merge_step_fin_obtain:
  assumes "c < length splits" and "length cum = Suc (length splits)"
    and "is_fin (cum ! c)" and "0 < cs"
  obtains r idx where "r = bisect_loop cum (padd (cum ! c) (Fin cs)) c (length cum)"
    and "idx = (if r - 1 = c then Suc c else r - 1)"
    and "c < r" and "r \<le> Suc (length splits)" and "c < idx" and "idx \<le> length splits"
    and "merge_step cs splits cum cw (int c) =
          Inr (int idx, py_join (if cw then '' '' else [])
                 (take (idx - c) (drop c splits)), psub (cum ! idx) (cum ! c))"
  using merge_step_fin [OF assms] by blast

lemma merge_loop_stuck:
  assumes cs: "0 < cs" and len: "length splits = length tcs"
    and c: "c < length tcs" and fin: "is_fin (cumulative cw tcs ! c)"
    and step: "merge_step cs splits (cumulative cw tcs) cw (int c) = Inr (int idx, p, x)"
    and idx: "idx < length tcs" and nf: "\<not> is_fin (cumulative cw tcs ! idx)"
  shows "merge_loop cs splits (cumulative cw tcs) cw (int idx) merged combined = None"
proof -
  let ?cum = "cumulative cw tcs"
  let ?n = "length tcs"
  have lc: "length ?cum = Suc (length splits)" using len by simp
  have cn: "c < length splits" using c len by simp
  from merge_step_fin_obtain [OF cn lc fin cs, of cw] obtain rc idxc where
    rc: "rc = bisect_loop ?cum (padd (?cum ! c) (Fin cs)) c (length ?cum)"
    and idxc: "idxc = (if rc - 1 = c then Suc c else rc - 1)"
    and stepc: "merge_step cs splits ?cum cw (int c) =
          Inr (int idxc, py_join (if cw then '' '' else [])
                 (take (idxc - c) (drop c splits)), psub (?cum ! idxc) (?cum ! c))"
    by metis
  have idx_c: "idx = (if rc - 1 = c then Suc c else rc - 1)"
    using stepc step idxc by simp
  from c fin obtain j where j: "c \<le> j" "j \<le> ?n" "is_fin (?cum ! j)"
    and above: "\<And>k. j < k \<Longrightarrow> k \<le> ?n \<Longrightarrow> \<not> is_fin (?cum ! k)"
    using last_fin_index [of c ?n "\<lambda>k. ?cum ! k"] by (metis less_imp_le_nat)
  have j_idx: "j < idx"
  proof (rule ccontr)
    assume "\<not> j < idx"
    then have "idx \<le> j" by simp
    from cumulative_not_fin [OF this j(2) nf] j(3) show False by simp
  qed
  have jn: "j < length splits" using j_idx idx len by simp
  from merge_step_fin_obtain [OF jn lc j(3) cs, of cw] obtain rj idxj where
    rj: "rj = bisect_loop ?cum (padd (?cum ! j) (Fin cs)) j (length ?cum)"
    and idxj: "idxj = (if rj - 1 = j then Suc j else rj - 1)"
    and rj_gt: "j < rj" and rj_le: "rj \<le> Suc (length splits)"
    and idxj_gt: "j < idxj"
    and stepj: "merge_step cs splits ?cum cw (int j) =
          Inr (int idxj, py_join (if cw then '' '' else [])
                 (take (idxj - j) (drop j splits)), psub (?cum ! idxj) (?cum ! j))"
    by metis
  have idxj_lt: "idxj < ?n"
  proof (cases "c = j")
    case True
    with idx_c idxj rc rj have "idxj = idx" by simp
    with idx show ?thesis by simp
  next
    case False
    with j(1) j_idx have far: "Suc c < idx" by simp
    with idx_c have rc1: "rc - 1 = idx" by (auto split: if_splits)
    with far have rcS: "rc = Suc idx" by simp
    have "rc \<noteq> length ?cum" using rcS idx by simp
    moreover have "c \<le> length ?cum" using c by simp
    ultimately have np: "\<not> plt (?cum ! Suc idx) (padd (?cum ! c) (Fin cs))"
      using bisect_loop_right [of c "length ?cum" ?cum "padd (?cum ! c) (Fin cs)"]
      unfolding rc [symmetric] rcS by blast
    have "\<not> is_fin (?cum ! Suc idx)"
      using above [of "Suc idx"] j_idx idx by simp
    moreover have "is_fin (padd (?cum ! c) (Fin cs))"
      using fin by (cases "?cum ! c") simp_all
    ultimately have "high (?cum ! Suc idx)"
      using np by (rule not_fin_not_high)
    then have top: "high (?cum ! ?n)"
      using cumulative_high [of "Suc idx" ?n tcs cw] idx by simp
    have "rj \<noteq> length ?cum"
    proof
      assume e: "rj = length ?cum"
      have "j \<le> length ?cum" using jn len by simp
      from bisect_loop_left [OF this, of ?cum "padd (?cum ! j) (Fin cs)"] rj_gt
      have "plt (?cum ! (rj - 1)) (padd (?cum ! j) (Fin cs))"
        unfolding rj [symmetric] by simp
      with e have "plt (?cum ! ?n) (padd (?cum ! j) (Fin cs))" by simp
      with top show False by (simp add: plt_high)
    qed
    with rj_le have "rj \<le> ?n" by (simp add: len)
    with rj_gt j_idx idx show ?thesis
      by (auto simp: idxj)
  qed
  define I where "I = (\<lambda>k. \<exists>m. k = int m \<and> j \<le> m \<and> m < ?n)"
  have inv: "k < int (length splits) \<and>
      (\<exists>i p x. merge_step cs splits ?cum cw k = Inr (i, p, x) \<and> I i)" if "I k" for k
  proof -
    from that obtain m where m: "k = int m" "j \<le> m" "m < ?n" by (auto simp: I_def)
    show ?thesis
    proof (cases "m = j")
      case True
      with stepj idxj_gt idxj_lt m len show ?thesis
        by (auto simp: I_def)
    next
      case False
      with m have "j < m" by simp
      from above [OF this] m have nfm: "\<not> is_fin (?cum ! m)" by simp
      have "I (int (m - 1))"
        unfolding I_def using \<open>j < m\<close> m(3) by (intro exI [of _ "m - 1"]) auto
      with merge_step_not_fin(2) [OF m(3) len nfm, of cs] m len show ?thesis
        by (simp del: of_nat_diff)
    qed
  qed
  have "I (int idx)" using j_idx idx by (auto simp: I_def)
  with inv show ?thesis by (rule merge_loop_None)
qed

subsection \<open>Runs of the merge loop that return\<close>

lemma py_join_Nil: "py_join [] xs = concat xs"
  by (induction "[] :: string" xs rule: py_join.induct) simp_all

lemma concat_take_drop:
  assumes "c \<le> idx"
  shows "concat (take (idx - c) (drop c xs)) @ concat (drop idx xs) = concat (drop c xs)"
proof -
  have "drop idx xs = drop (idx - c) (drop c xs)" using assms by simp
  then have "concat (take (idx - c) (drop c xs)) @ concat (drop idx xs)
      = concat (take (idx - c) (drop c xs) @ drop (idx - c) (drop c xs))"
    by (simp only: concat_append)
  then show ?thesis by (simp only: append_take_drop_id)
qed

lemma merge_loop_result:
  assumes cs: "0 < cs" and len: "length splits = length tcs"
  shows "c \<le> length tcs \<Longrightarrow> (c < length tcs \<longrightarrow> is_fin (cumulative cw tcs ! c)) \<Longrightarrow>
     merge_loop cs splits (cumulative cw tcs) cw (int c) merged combined = Some res \<Longrightarrow>
     \<exists>ps xs. res = Inr (merged @ ps, combined @ xs) \<and> length ps = length xs
       \<and> length ps \<le> length tcs - c
       \<and> (\<not> cw \<longrightarrow> concat ps = concat (drop c splits))
       \<and> (\<forall>x\<in>set xs. \<exists>i k. i < k \<and> k \<le> length tcs \<and> is_fin (cumulative cw tcs ! i)
              \<and> x = psub (cumulative cw tcs ! k) (cumulative cw tcs ! i))"
proof (induction "length tcs - c" arbitrary: c merged combined rule: less_induct)
  case less
  let ?cum = "cumulative cw tcs"
  show ?case
  proof (cases "c < length tcs")
    case False
    with less.prems(1) have "c = length tcs" by simp
    with less.prems(3) len have "res = Inr (merged, combined)"
      by (subst (asm) merge_loop.simps) simp
    with \<open>c = length tcs\<close> len show ?thesis by simp
  next
    case True
    with less.prems(2) have fin: "is_fin (?cum ! c)" by simp
    have cn: "c < length splits" using True len by simp
    have lc: "length ?cum = Suc (length splits)" using len by simp
    from merge_step_fin_obtain [OF cn lc fin cs, of cw] obtain idx where
      gt: "c < idx" and le: "idx \<le> length splits"
      and step: "merge_step cs splits ?cum cw (int c) =
          Inr (int idx, py_join (if cw then '' '' else [])
                 (take (idx - c) (drop c splits)), psub (?cum ! idx) (?cum ! c))"
      by metis
    let ?piece = "py_join (if cw then '' '' else []) (take (idx - c) (drop c splits))"
    let ?cnt = "psub (?cum ! idx) (?cum ! c)"
    have run: "merge_loop cs splits ?cum cw (int idx) (merged @ [?piece]) (combined @ [?cnt])
        = Some res"
      using less.prems(3) cn step by (subst (asm) merge_loop.simps) simp
    have ok: "idx < length tcs \<longrightarrow> is_fin (?cum ! idx)"
    proof (intro impI, rule ccontr)
      assume "idx < length tcs" and "\<not> is_fin (?cum ! idx)"
      from merge_loop_stuck [OF cs len True fin step this] run show False by simp
    qed
    have "length tcs - idx < length tcs - c" using gt True by simp
    from less.hyps [OF this _ ok run] le len obtain ps xs where
      res: "res = Inr ((merged @ [?piece]) @ ps, (combined @ [?cnt]) @ xs)"
      and l: "length ps = length xs" and st: "length ps \<le> length tcs - idx"
      and cc: "\<not> cw \<longrightarrow> concat ps = concat (drop idx splits)"
      and xs: "\<forall>x\<in>set xs. \<exists>i k. i < k \<and> k \<le> length tcs \<and> is_fin (?cum ! i)
              \<and> x = psub (?cum ! k) (?cum ! i)"
      by auto
    have "\<not> cw \<longrightarrow> concat (?piece # ps) = concat (drop c splits)"
      using cc concat_take_drop [of c idx splits] gt by (simp add: py_join_Nil)
    moreover have "\<forall>x\<in>set (?cnt # xs). \<exists>i k. i < k \<and> k \<le> length tcs \<and> is_fin (?cum ! i)
              \<and> x = psub (?cum ! k) (?cum ! i)"
      using xs gt le len fin by auto
    moreover have "res = Inr (merged @ (?piece # ps), combined @ (?cnt # xs))"
      using res by simp
    moreover have "length (?piece # ps) = length (?cnt # xs)" using l by simp
    moreover have "length (?piece # ps) \<le> length tcs - c" using st gt le len by simp
    ultimately show ?thesis by blast
  qed
qed

lemma merge_loop_returns:
  assumes cs: "0 < cs" and len: "length splits = length tcs"
    and fin: "\<forall>k<length tcs. is_fin (cumulative cw tcs ! k)"
  shows "c \<le> length tcs \<Longrightarrow>
     \<exists>res. merge_loop cs splits (cumulative cw tcs) cw (int c) merged combined = Some res"
proof (induction "length tcs - c" arbitrary: c merged combined rule: less_induct)
  case less
  let ?cum = "cumulative cw tcs"
  show ?case
  proof (cases "c < length tcs")
    case False
    with len show ?thesis by (subst merge_loop.simps) simp
  next
    case True
    with fin have f: "is_fin (?cum ! c)" by simp
    have cn: "c < length splits" using True len by simp
    have lc: "length ?cum = Suc (length splits)" using len by simp
    from merge_step_fin_obtain [OF cn lc f cs, of cw] obtain idx where
      gt: "c < idx" and le: "idx \<le> length splits"
      and step: "merge_step cs splits ?cum cw (int c) =
          Inr (int idx, py_join (if cw then '' '' else [])
                 (take (idx - c) (drop c splits)), psub (?cum ! idx) (?cum ! c))"
      by metis
    have "length tcs - idx < length tcs - c" using gt True by simp
    from less.hyps [OF this] le len obtain res where
      "merge_loop cs splits ?cum cw (int idx)
         (merged @ [py_join (if cw then '' '' else []) (take (idx - c) (drop c splits))])
         (combined @ [psub (?cum ! idx) (?cum ! c)]) = Some res"
      by fastforce
    with cn step show ?thesis by (subst merge_loop.simps) simp
  qed
qed

subsection \<open>What the merger returns\<close>

lemma cumulative_fin:
  assumes "\<forall>t\<in>set (butlast tcs). is_fin t"
  shows "k < length tcs \<Longrightarrow> is_fin (cumulative cw tcs ! k)"
proof (induction k)
  case 0
  then show ?case by simp
next
  case (Suc k)
  then have k: "k < length tcs" and IH: "is_fin (cumulative cw tcs ! k)" by simp_all
  from Suc.prems have "k < length (butlast tcs)" by simp
  then have "butlast tcs ! k \<in> set (butlast tcs)" by (rule nth_mem)
  with \<open>k < length (butlast tcs)\<close> assms have "is_fin (tcs ! k)"
    by (simp add: nth_butlast)
  with IH obtain a b where "cumulative cw tcs ! k = Fin a" "tcs ! k = Fin b"
    by (cases "cumulative cw tcs ! k"; cases "tcs ! k") simp_all
  then show ?case using k by (cases cw) (simp_all add: cumulative_Suc)
qed

lemma merge_splits_result:
  assumes cs: "0 < chunk_size c" and len: "length splits = length tcs"
    and run: "merge_splits c splits tcs cw = Some res"
  shows "\<exists>merged counts. res = Inr (merged, counts) \<and> length merged = length counts
           \<and> length merged \<le> length splits
           \<and> (\<not> cw \<longrightarrow> concat merged = concat splits)
           \<and> (\<forall>x\<in>set counts. x \<in> set tcs \<or>
                 (\<exists>i k. i < k \<and> k \<le> length tcs \<and> is_fin (cumulative cw tcs ! i)
                    \<and> x = psub (cumulative cw tcs ! k) (cumulative cw tcs ! i)))"
proof (cases "splits = [] \<or> list_all (\<lambda>counts. pgt counts (Fin (chunk_size c))) tcs")
  case True
  with run len show ?thesis by (auto simp: merge_splits_def split: if_splits)
next
  case False
  with run len have "merge_loop (chunk_size c) splits (cumulative cw tcs) cw (int 0) [] [] = Some res"
    by (simp add: merge_splits_def split: if_splits)
  from merge_loop_result [OF cs len _ _ this] len show ?thesis by auto
qed

lemma merge_splits_returns:
  assumes cs: "0 < chunk_size c" and len: "length splits = length tcs"
    and fin: "\<forall>t\<in>set (butlast tcs). is_fin t"
  shows "\<exists>res. merge_splits c splits tcs cw = Some res"
proof -
  have "\<forall>k<length tcs. is_fin (cumulative cw tcs ! k)"
    using cumulative_fin [OF fin] by simp
  from merge_loop_returns [OF cs len this, of 0 "[]" "[]"] show ?thesis
    by (simp add: merge_splits_def)
qed

text \<open>
  For lists of equal length in which only the last token count may be the
  sentinel, the merger returns, and with at most as many merged pieces as
  there are input pieces: each step of the loop then advances.
\<close>

lemma merge_splits_steps:
  assumes "0 < chunk_size c" and "length splits = length tcs"
    and "\<forall>t\<in>set (butlast tcs). is_fin t"
  shows "\<exists>merged counts. merge_splits c splits tcs cw = Some (Inr (merged, counts))
           \<and> length merged = length counts \<and> length merged \<le> length splits"
proof -
  from merge_splits_returns [OF assms, of cw] obtain res where
    r: "merge_splits c splits tcs cw = Some res" by blast
  from merge_splits_result [OF assms(1,2) r] r show ?thesis by auto
qed

text \<open>
  C10. Merging with \<open>combine_whitespace = False\<close> keeps the characters: whenever
  the merger returns for lists of equal length, the concatenation of the
  merged pieces is the concatenation of the input pieces; and it does return
  whenever no token count before the last is the sentinel.
\<close>

theorem merge_splits_concat:
  assumes "0 < chunk_size c" and "length splits = length token_counts"
  shows "(\<forall>res. merge_splits c splits token_counts False = Some res \<longrightarrow>
            (\<exists>merged counts. res = Inr (merged, counts) \<and> concat merged = concat splits))
         \<and> ((\<forall>t\<in>set (butlast token_counts). is_fin t) \<longrightarrow>
            (\<exists>merged counts. merge_splits c splits token_counts False = Some (Inr (merged, counts))
               \<and> concat merged = concat splits))"
proof (intro conjI allI impI)
  fix res assume "merge_splits c splits token_counts False = Some res"
  from merge_splits_result [OF assms this]
  show "\<exists>merged counts. res = Inr (merged, counts) \<and> concat merged = concat splits"
    by auto
next
  assume "\<forall>t\<in>set (butlast token_counts). is_fin t"
  from merge_splits_returns [OF assms this, of False] obtain res where
    r: "merge_splits c splits token_counts False = Some res" by blast
  from merge_splits_result [OF assms r] r
  show "\<exists>merged counts. merge_splits c splits token_counts False = Some (Inr (merged, counts))
          \<and> concat merged = concat splits"
    by auto
qed

lemma merge_example:
  "merge_splits (ck 5 []) [''a'', ''b'', ''c''] [Fin 2, Fin 2, Fin 3] False
     = Some (Inr ([''ab'', ''c''], [Fin 4, Fin 3]))"
  by code_simp

theorem merge_splits_concat_witness:
  "0 < chunk_size (ck 5 []) \<and> length [''a'', ''b'', ''c''] = length [Fin 2, Fin 2, Fin 3]
   \<and> merge_splits (ck 5 []) [''a'', ''b'', ''c''] [Fin 2, Fin 2, Fin 3] False
       = Some (Inr ([''ab'', ''c''], [Fin 4, Fin 3]))
   \<and> concat [''ab'', ''c''] = concat [''a'', ''b'', ''c'']"
  using merge_splits_concat [of "ck 5 []" "[''a'', ''b'', ''c'']" "[Fin 2, Fin 2, Fin 3]"]
    merge_example
  by (simp add: ck_def)

lemma sentinel_step_0:
  "merge_step 1 [''aaaaaaaaaaaa.'', ''b''] (cumulative False [PInf, Fin 1]) False 0
     = Inr (1, ''aaaaaaaaaaaa.'', PInf)"
  by code_simp

lemma sentinel_step_1:
  "merge_step 1 [''aaaaaaaaaaaa.'', ''b''] (cumulative False [PInf, Fin 1]) False 1
     = Inr (0, [], NInf)"
  by code_simp

lemma sentinel_merge_None:
  "merge_splits (ck 1 [lv_dot, lv_tok]) [''aaaaaaaaaaaa.'', ''b''] [PInf, Fin 1] False = None"
proof -
  let ?splits = "[''aaaaaaaaaaaa.'', ''b'']"
  let ?cum = "cumulative False [PInf, Fin 1]"
  have "merge_loop 1 ?splits ?cum False 0 [] [] = None"
  proof (rule merge_loop_None [where I = "\<lambda>k. k = 0 \<or> k = 1"])
    fix k :: int assume "k = 0 \<or> k = 1"
    then show "k < int (length ?splits) \<and>
        (\<exists>idx p x. merge_step 1 ?splits ?cum False k = Inr (idx, p, x) \<and> (idx = 0 \<or> idx = 1))"
      using sentinel_step_0 sentinel_step_1 by auto
  qed simp
  then show ?thesis
    by (simp add: merge_splits_def ck_def pgt_def)
qed

text \<open>
  C8. With the sentinel before the last count the loop does not advance: from
  index 1 the search gives index 0, from index 0 the forced step gives index 1,
  and the merger never returns.
\<close>

theorem merge_splits_sentinel_no_return:
  "merge_step 1 [''aaaaaaaaaaaa.'', ''b''] (cumulative False [PInf, Fin 1]) False 1
     = Inr (0, [], NInf)
   \<and> merge_splits (ck 1 [lv_dot, lv_tok]) [''aaaaaaaaaaaa.'', ''b''] [PInf, Fin 1] False = None"
  using sentinel_step_1 sentinel_merge_None by simp

subsection \<open>The index selected by a step\<close>



lemma padd_0 [simp]: "padd x (Fin 0) = x"
  by (cases x) simp_all













subsection \<open>The length check\<close>

text \<open>
  C3 (as amended). When the two lists differ in length and neither is empty,
  \<open>_merge_splits\<close> raises ValueError and returns nothing. When one of them is
  empty the guard before the length check returns two empty lists instead.
\<close>

theorem merge_splits_length_mismatch:
  "length splits \<noteq> length token_counts \<Longrightarrow>
   merge_splits c splits token_counts cw =
     (if splits = [] \<or> token_counts = [] then Some (Inr ([], [])) else Some (Inl ValueError))"
  by (simp add: merge_splits_def)

theorem merge_splits_length_mismatch_witness:
  "length [''a''] \<noteq> length [Fin 1, Fin 2]
   \<and> merge_splits (ck 5 []) [''a''] [Fin 1, Fin 2] False = Some (Inl ValueError)"
  using merge_splits_length_mismatch [of "[''a'']" "[Fin 1, Fin 2]" "ck 5 []" False]
  by simp

text \<open>
  C3 as stated fails: an empty list of pieces with one token count is a
  mismatch, and the merger returns normally.
\<close>

theorem merge_splits_mismatch_counterexample:
  "length ([] :: string list) \<noteq> length [Fin 1]
   \<and> merge_splits (ck 5 []) [] [Fin 1] False = Some (Inr ([], []))"
  by (simp add: merge_splits_def)

section \<open>Results about the driver\<close>

subsection \<open>The size bound\<close>

lemma collect_member:
  "collect rs = Some (Inr outs) \<Longrightarrow> x \<in> set outs \<Longrightarrow>
   \<exists>ys. Some (Inr ys) \<in> set rs \<and> x \<in> set ys"
proof (induction rs arbitrary: outs)
  case Nil
  then show ?case by simp
next
  case (Cons r rs)
  from Cons.prems(1) obtain ys zs where r: "r = Some (Inr ys)"
    and c: "collect rs = Some (Inr zs)" and o: "outs = ys @ zs"
    by (auto split: option.splits sum.splits)
  from Cons.prems(2) o have "x \<in> set ys \<or> x \<in> set zs" by simp
  then show ?case
  proof
    assume "x \<in> set ys"
    with r show ?thesis by auto
  next
    assume "x \<in> set zs"
    from Cons.IH [OF c this] show ?thesis by auto
  qed
qed

lemma estimate_not_nan:
  "is_fin (fst (estimate_uncached c s)) \<or> fst (estimate_uncached c s) = PInf"
  by (simp add: estimate_uncached_def Let_def)

lemma cumulative_range:
  assumes "\<forall>t\<in>set tcs. is_fin t \<or> t = PInf"
  shows "k \<le> length tcs \<Longrightarrow> is_fin (cumulative cw tcs ! k) \<or> cumulative cw tcs ! k = PInf"
proof (induction k)
  case 0
  then show ?case by simp
next
  case (Suc k)
  then have IH: "is_fin (cumulative cw tcs ! k) \<or> cumulative cw tcs ! k = PInf"
    and k: "k < length tcs" by simp_all
  from k assms have t: "is_fin (tcs ! k) \<or> tcs ! k = PInf" by simp
  from IH t show ?case using k
    by (cases cw; cases "cumulative cw tcs ! k"; cases "tcs ! k") (simp_all add: cumulative_Suc)
qed

lemma psub_range: "is_fin a \<Longrightarrow> is_fin b \<or> b = PInf \<Longrightarrow> is_fin (psub b a) \<or> psub b a = PInf"
  by (cases a; cases b) (simp_all add: psub_def)

lemma not_pgt_ple: "is_fin x \<or> x = PInf \<Longrightarrow> \<not> pgt x (Fin k) \<Longrightarrow> ple x (Fin k)"
  by (cases x) (simp_all add: pgt_def)

lemma merged_counts_range:
  assumes cs: "0 < chunk_size c"
    and run: "merge_splits c splits (map (\<lambda>s. fst (estimate_uncached c s)) splits) cw
                = Some (Inr (merged, combined))"
    and x: "x \<in> set combined"
  shows "is_fin x \<or> x = PInf"
proof -
  let ?tcs = "map (\<lambda>s. fst (estimate_uncached c s)) splits"
  have tcs: "\<forall>t\<in>set ?tcs. is_fin t \<or> t = PInf"
    using estimate_not_nan by auto
  have len: "length splits = length ?tcs" by simp
  from merge_splits_result [OF cs len run] x
  have "x \<in> set ?tcs \<or>
      (\<exists>i k. i < k \<and> k \<le> length ?tcs \<and> is_fin (cumulative cw ?tcs ! i)
         \<and> x = psub (cumulative cw ?tcs ! k) (cumulative cw ?tcs ! i))"
    by auto
  then show ?thesis
  proof
    assume "x \<in> set ?tcs"
    with tcs show ?thesis by blast
  next
    assume "\<exists>i k. i < k \<and> k \<le> length ?tcs \<and> is_fin (cumulative cw ?tcs ! i)
         \<and> x = psub (cumulative cw ?tcs ! k) (cumulative cw ?tcs ! i)"
    then obtain i k where "k \<le> length ?tcs" "is_fin (cumulative cw ?tcs ! i)"
      and xe: "x = psub (cumulative cw ?tcs ! k) (cumulative cw ?tcs ! i)" by blast
    from psub_range [OF this(2) cumulative_range [OF tcs this(1)]] xe show ?thesis by simp
  qed
qed

lemma convert_to_chunk_fields:
  "token_count (fst (convert_to_chunk t tc lvl ft k)) = tc"
  "level (fst (convert_to_chunk t tc lvl ft k)) = lvl"
  "chunk_text (fst (convert_to_chunk t tc lvl ft k)) = t"
  by (simp_all add: convert_to_chunk_def Let_def split: sum.splits prod.splits)

lemma chunk_helper_span:
  assumes run: "chunk_helper c t lvl ft = Some (Inr outs)" and ch: "OChunk ch \<in> set outs"
    and t: "t \<noteq> []" and lvl: "lvl < length (rules c)"
  obtains splits cw merged combined split tc ys full where
    "split_level c t (rules c ! lvl) INTERNAL_SEP = Inr splits"
    and "(merged, combined) = (splits, map (\<lambda>s. fst (estimate_uncached c s)) splits)
         \<or> merge_splits c splits (map (\<lambda>s. fst (estimate_uncached c s)) splits) cw
              = Some (Inr (merged, combined))"
    and "(split, tc) \<in> set (zip merged combined)" and "OChunk ch \<in> set ys"
    and "if pgt tc (Fin (chunk_size c))
         then chunk_helper c split (lvl + 1) (Some full) = Some (Inr ys)
         else token_count ch = tc \<and> level ch = lvl \<and> chunk_text ch = split"
proof -
  define full where "full = (case ft of None \<Rightarrow> t | Some f \<Rightarrow> f)"
  define rule where "rule = rules c ! lvl"
  define no_delim where "no_delim = (delimiters rule = None \<and> \<not> whitespace rule)"
  from run t lvl obtain splits where
    sp: "split_level c t rule INTERNAL_SEP = Inr splits"
    by (subst (asm) chunk_helper.simps)
      (auto simp: Let_def rule_def split: sum.splits)
  define tcs where "tcs = map (\<lambda>s. fst (estimate_uncached c s)) splits"
  define f where "f = (\<lambda>merged. \<lambda>(split, tc).
      if pgt tc (Fin (chunk_size c)) then chunk_helper c split (lvl + 1) (Some full)
      else if return_type c = ''chunks''
        then Some (Inr [OChunk (fst (convert_to_chunk split tc lvl
               (if no_delim then Some (concat merged) else Some full) 0))])
      else if return_type c = ''texts'' then Some (Inr [OText split])
      else Some (Inr []))"
  from run t lvl sp obtain merged combined where
    mg: "(if no_delim then Some (Inr (splits, tcs))
          else if delimiters rule = None \<and> whitespace rule
            then merge_splits c splits tcs True
          else merge_splits c splits tcs False) = Some (Inr (merged, combined))"
    and co: "collect (map (f merged) (zip merged combined)) = Some (Inr outs)"
    by (subst (asm) chunk_helper.simps)
      (auto simp: Let_def rule_def [symmetric] full_def [symmetric] tcs_def [symmetric]
        no_delim_def [symmetric] f_def
        split: sum.splits option.splits prod.splits simp del: map_eq_conv)
  from collect_member [OF co ch] obtain ys split tc where
    mem: "(split, tc) \<in> set (zip merged combined)"
    and fy: "f merged (split, tc) = Some (Inr ys)" and chy: "OChunk ch \<in> set ys"
    by (metis (no_types, lifting) imageE list.set_map surj_pair)
  from mg obtain cw where m: "(merged, combined) = (splits, tcs)
      \<or> merge_splits c splits tcs cw = Some (Inr (merged, combined))"
    by (auto split: if_splits)
  have "if pgt tc (Fin (chunk_size c))
         then chunk_helper c split (lvl + 1) (Some full) = Some (Inr ys)
         else token_count ch = tc \<and> level ch = lvl \<and> chunk_text ch = split"
    using fy chy by (auto simp: f_def convert_to_chunk_fields split: if_splits)
  with sp m mem chy show thesis
    using that [of splits merged combined cw split tc ys full]
    by (simp add: rule_def tcs_def)
qed

lemma chunk_helper_size_bound:
  assumes cs: "0 < chunk_size c"
  shows "chunk_helper c t lvl ft = Some (Inr outs) \<Longrightarrow> OChunk ch \<in> set outs \<Longrightarrow>
         length (rules c) \<le> level ch \<or> ple (token_count ch) (Fin (chunk_size c))"
proof (induction "length (rules c) - lvl" arbitrary: t lvl ft outs rule: less_induct)
  case less
  show ?case
  proof (cases "t = [] \<or> length (rules c) \<le> lvl")
    case True
    with less.prems show ?thesis
      by (subst (asm) chunk_helper.simps)
        (auto simp: convert_to_chunk_fields split: if_splits)
  next
    case False
    then have t: "t \<noteq> []" and lvl: "lvl < length (rules c)" by simp_all
    from chunk_helper_span [OF less.prems t lvl]
    obtain splits cw merged combined split tc ys full where
      mg: "(merged, combined) = (splits, map (\<lambda>s. fst (estimate_uncached c s)) splits)
         \<or> merge_splits c splits (map (\<lambda>s. fst (estimate_uncached c s)) splits) cw
              = Some (Inr (merged, combined))"
      and mem: "(split, tc) \<in> set (zip merged combined)" and chy: "OChunk ch \<in> set ys"
      and span: "if pgt tc (Fin (chunk_size c))
         then chunk_helper c split (lvl + 1) (Some full) = Some (Inr ys)
         else token_count ch = tc \<and> level ch = lvl \<and> chunk_text ch = split"
      by metis
    from mem have tcm: "tc \<in> set combined" by (auto dest: set_zip_rightD)
    from mg have range: "is_fin tc \<or> tc = PInf"
    proof
      assume "(merged, combined) = (splits, map (\<lambda>s. fst (estimate_uncached c s)) splits)"
      with tcm show ?thesis using estimate_not_nan by auto
    next
      assume "merge_splits c splits (map (\<lambda>s. fst (estimate_uncached c s)) splits) cw
              = Some (Inr (merged, combined))"
      from merged_counts_range [OF cs this tcm] show ?thesis .
    qed
    show ?thesis
    proof (cases "pgt tc (Fin (chunk_size c))")
      case True
      with span have rec: "chunk_helper c split (lvl + 1) (Some full) = Some (Inr ys)"
        by simp
      have "length (rules c) - (lvl + 1) < length (rules c) - lvl" using lvl by simp
      from less.hyps [OF this rec chy] show ?thesis .
    next
      case False
      with span have "token_count ch = tc" by simp
      with not_pgt_ple [OF range False] show ?thesis by simp
    qed
  qed
qed

lemma chunk_helper_levels:
  "chunk_helper c t lvl ft = Some (Inr outs) \<Longrightarrow> OChunk ch \<in> set outs \<Longrightarrow>
   lvl \<le> level ch \<and> level ch \<le> max lvl (length (rules c))"
proof (induction "length (rules c) - lvl" arbitrary: t lvl ft outs rule: less_induct)
  case less
  show ?case
  proof (cases "t = [] \<or> length (rules c) \<le> lvl")
    case True
    with less.prems show ?thesis
      by (subst (asm) chunk_helper.simps)
        (auto simp: convert_to_chunk_fields split: if_splits)
  next
    case False
    then have t: "t \<noteq> []" and lvl: "lvl < length (rules c)" by simp_all
    from chunk_helper_span [OF less.prems t lvl]
    obtain split tc ys full where chy: "OChunk ch \<in> set ys"
      and span: "if pgt tc (Fin (chunk_size c))
         then chunk_helper c split (lvl + 1) (Some full) = Some (Inr ys)
         else token_count ch = tc \<and> level ch = lvl \<and> chunk_text ch = split"
      by metis
    show ?thesis
    proof (cases "pgt tc (Fin (chunk_size c))")
      case True
      with span have rec: "chunk_helper c split (lvl + 1) (Some full) = Some (Inr ys)"
        by simp
      have "length (rules c) - (lvl + 1) < length (rules c) - lvl" using lvl by simp
      from less.hyps [OF this rec chy] lvl show ?thesis by simp
    next
      case False
      with span lvl show ?thesis by simp
    qed
  qed
qed

text \<open>
  The levels of the driver: it starts at level 0 and a call at a level only
  calls the next one, up to the level after the last rule, so the chunks of
  \<open>chunk\<close> carry levels from 0 to the number of rules.
\<close>

lemma chunk_levels:
  assumes "chunk c t = Some (Inr outs)" and "OChunk ch \<in> set outs"
  shows "level ch \<le> length (rules c)"
  using chunk_helper_levels [of c t 0 "Some t" outs ch] assms by (simp add: chunk_def)

text \<open>
  A run through a whitespace level and the token-window level. The cumulative
  counts of \<open>ab\<close>, \<open>cd\<close> and \<open>efghijkl\<close> are 0, 3, 6 and 15, one more per
  piece than the tokens; with six tokens allowed the first two pieces stay
  apart, and the third goes down to the token windows.
\<close>

lemma whitespace_example:
  "chunk (ck 6 [lv_ws, lv_tok]) ''ab cd efghijkl''
     = Some (Inr [OChunk \<lparr>chunk_text = ''ab'', start_index = 0, end_index = 2,
                           token_count = Fin 3, level = 0\<rparr>,
                  OChunk \<lparr>chunk_text = ''cd'', start_index = 3, end_index = 5,
                           token_count = Fin 3, level = 0\<rparr>,
                  OChunk \<lparr>chunk_text = ''efghij'', start_index = 0, end_index = 6,
                           token_count = Fin 6, level = 1\<rparr>,
                  OChunk \<lparr>chunk_text = ''kl'', start_index = 6, end_index = 8,
                           token_count = Fin 2, level = 1\<rparr>])"
  by code_simp

lemma size_bound_example:
  "chunk (ck 3 [lv_dot, lv_tok]) ''abcd.ab.''
     = Some (Inr [OChunk \<lparr>chunk_text = ''abc'', start_index = 0, end_index = 3,
                           token_count = Fin 3, level = 1\<rparr>,
                  OChunk \<lparr>chunk_text = ''d.'', start_index = 3, end_index = 5,
                           token_count = Fin 2, level = 1\<rparr>,
                  OChunk \<lparr>chunk_text = ''ab.'', start_index = 5, end_index = 8,
                           token_count = Fin 3, level = 0\<rparr>])"
  by code_simp

text \<open>
  The fallback path is outside the bound: with the delimiter level alone, a
  sentence of nine tokens is passed down to the level after the last rule and
  comes back as one chunk of nine tokens.
\<close>

lemma fallback_exceeds_example:
  "chunk (ck 3 [lv_dot]) ''abcdefgh.''
     = Some (Inr [OChunk \<lparr>chunk_text = ''abcdefgh.'', start_index = 0, end_index = 9,
                           token_count = Fin 9, level = 1\<rparr>])"
  by code_simp

text \<open>
  C1. Every chunk that \<open>chunk\<close> returns from a level that has a rule carries a
  token count of at most \<open>chunk_size\<close>; only the chunks of the level after the
  last rule are outside the bound. The chunker has a positive \<open>chunk_size\<close>, as
  the constructor requires.
\<close>

theorem chunk_size_bound:
  assumes "0 < chunk_size c" and "chunk c t = Some (Inr outs)"
    and "OChunk ch \<in> set outs" and "level ch < length (rules c)"
  shows "ple (token_count ch) (Fin (chunk_size c))"
  using chunk_helper_size_bound [OF assms(1), of t 0 "Some t" outs ch] assms(2-4)
  by (simp add: chunk_def)

theorem chunk_size_bound_witness:
  "0 < chunk_size (ck 3 [lv_dot, lv_tok])
   \<and> chunk (ck 3 [lv_dot, lv_tok]) ''abcd.ab.''
     = Some (Inr [OChunk \<lparr>chunk_text = ''abc'', start_index = 0, end_index = 3,
                           token_count = Fin 3, level = 1\<rparr>,
                  OChunk \<lparr>chunk_text = ''d.'', start_index = 3, end_index = 5,
                           token_count = Fin 2, level = 1\<rparr>,
                  OChunk \<lparr>chunk_text = ''ab.'', start_index = 5, end_index = 8,
                           token_count = Fin 3, level = 0\<rparr>])
   \<and> ple (Fin 2) (Fin (chunk_size (ck 3 [lv_dot, lv_tok])))"
  using chunk_size_bound [of "ck 3 [lv_dot, lv_tok]" "''abcd.ab.''" _
      "\<lparr>chunk_text = ''d.'', start_index = 3, end_index = 5, token_count = Fin 2, level = 1\<rparr>"]
    size_bound_example
  by (simp add: ck_def)

subsection \<open>Inputs on which the driver goes wrong\<close>

lemma sentinel_split:
  "split_level (ck 1 [lv_dot, lv_tok]) ''aaaaaaaaaaaa.b'' lv_dot INTERNAL_SEP
     = Inr [''aaaaaaaaaaaa.'', ''b'']"
  by code_simp

lemma sentinel_counts:
  "fst (estimate_uncached (ck 1 [lv_dot, lv_tok]) ''aaaaaaaaaaaa.'') = PInf"
  "fst (estimate_uncached (ck 1 [lv_dot, lv_tok]) ''b'') = Fin 1"
  by code_simp+

text \<open>
  C2. With a delimiter level before the token-window level, a text whose first
  sentence is estimated as oversized and whose second is not sends the merger
  into the loop that does not return, and \<open>chunk\<close> does not return either.
\<close>

theorem chunk_sentinel_no_return:
  "chunk (ck 1 [lv_dot, lv_tok]) ''aaaaaaaaaaaa.b'' = None"
proof -
  have m: "merge_splits (ck 1 [lv_dot, lv_tok]) [''aaaaaaaaaaaa.'', ''b''] [PInf, Fin 1] False = None"
    by (rule sentinel_merge_None)
  have r: "rules (ck 1 [lv_dot, lv_tok]) ! 0 = lv_dot" "length (rules (ck 1 [lv_dot, lv_tok])) = 2"
    by (simp_all add: ck_def)
  have d: "delimiters lv_dot \<noteq> None" by (simp add: lv_dot_def)
  show ?thesis
    unfolding chunk_def
    by (subst chunk_helper.simps) (simp add: r d sentinel_split sentinel_counts m Let_def)
qed

text \<open>
  C5. The driver calls the materializer without a search offset, so every
  search starts at 0: the two equal sentences of \<open>ab.ab.\<close> both get the offsets
  of the first one. Searching from the end of the previous chunk, as the
  materializer would with offset 3, gives 3 and 6 for the second.
\<close>

theorem chunk_duplicate_offsets:
  "chunk (ck 3 [lv_dot]) ''ab.ab.''
     = Some (Inr [OChunk \<lparr>chunk_text = ''ab.'', start_index = 0, end_index = 3,
                           token_count = Fin 3, level = 0\<rparr>,
                  OChunk \<lparr>chunk_text = ''ab.'', start_index = 0, end_index = 3,
                           token_count = Fin 3, level = 0\<rparr>])
   \<and> fst (convert_to_chunk ''ab.'' (Fin 3) 0 (Some ''ab.ab.'') 3)
     = \<lparr>chunk_text = ''ab.'', start_index = 3, end_index = 6, token_count = Fin 3, level = 0\<rparr>"
  by code_simp

end
